theory Spec2Isabelle
  imports Main "HOL-Library.Word" "HOL-Library.Sublist"
begin

unbundle bit_operations_syntax

section \<open>The streaming query-result reader\<close>

text \<open>
  The reader is the TypeScript module that defines \<^verbatim>\<open>runQuery\<close>,
  \<^verbatim>\<open>processResponse\<close> and \<^verbatim>\<open>trimPartialLines\<close>. It fetches a Flux
  query result, reads the response body chunk by chunk, decodes each chunk to
  text, counts the bytes, and stops at the first chunk that takes the count
  over \<^verbatim>\<open>FLUX_RESPONSE_BYTES_LIMIT\<close>.
\<close>

subsection \<open>Data\<close>

text \<open>
  A chunk is a \<^verbatim>\<open>Uint8Array\<close>: a list of bytes. A JavaScript string is a
  sequence of UTF-16 code units; \<^verbatim>\<open>length\<close>, indexing and \<^verbatim>\<open>slice\<close>
  count code units.
\<close>

type_synonym byte = "8 word"
type_synonym jsstring = "16 word list"

text \<open>The character \<^verbatim>\<open>'\n'\<close>.\<close>

definition newline :: "16 word" where
  "newline = 0x0A"

text \<open>
  \<^verbatim>\<open>interface RunQueryResult { csv: string; didTruncate: boolean; bytesRead: number }\<close>.
  The counter only ever grows by array lengths, so it is an integer; it is
  modelled as \<open>int\<close> (a JavaScript number is exact on integers below \<open>2^53\<close>).
\<close>

record RunQueryResult =
  csv :: jsstring
  didTruncate :: bool
  bytesRead :: int

text \<open>
  A thrown or rejected JavaScript error; the reader only ever looks at its
  \<^verbatim>\<open>name\<close>.
\<close>

datatype js_error = JsError (error_name: string)

text \<open>How an awaited promise settles.\<close>

datatype 'a settled = Fulfilled 'a | RejectedWith js_error

text \<open>
  What \<^verbatim>\<open>reader.read()\<close> resolves to: \<^verbatim>\<open>{done: false, value}\<close> or
  \<^verbatim>\<open>{done: true}\<close>.
\<close>

datatype read_result = ReadValue "byte list" | ReadDone

text \<open>
  The byte source. \<open>pending\<close> lists, in order, how the successive calls of
  \<^verbatim>\<open>reader.read()\<close> will settle; a call made when the list is empty never
  settles. \<open>cancel_calls\<close> counts the calls of \<^verbatim>\<open>reader.cancel()\<close>, the
  release of the source.
\<close>

record reader =
  pending :: "read_result settled list"
  cancel_calls :: nat

text \<open>
  What the promise returned by \<^verbatim>\<open>runQuery\<close> rejects with: a fresh
  \<^verbatim>\<open>CancellationError\<close>, or the error that was caught, passed on.
\<close>

datatype rejection = CancellationError | Rethrown js_error

subsection \<open>The decoder\<close>

text \<open>
  \<^verbatim>\<open>new TextDecoder()\<close> is the platform's UTF-8 decoder with the default
  options (not fatal, byte order mark not ignored). Its behaviour is fixed by
  the WHATWG Encoding Standard, which is followed here step by step.

  The state of the UTF-8 decoder: \<^emph>\<open>code point\<close>, \<^emph>\<open>bytes seen\<close>,
  \<^emph>\<open>bytes needed\<close>, \<^emph>\<open>lower boundary\<close> and \<^emph>\<open>upper boundary\<close>.
\<close>

record utf8_decoder =
  code_point :: nat
  bytes_seen :: nat
  bytes_needed :: nat
  lower_boundary :: byte
  upper_boundary :: byte

definition new_utf8_decoder :: utf8_decoder where
  "new_utf8_decoder =
     \<lparr>code_point = 0, bytes_seen = 0, bytes_needed = 0,
      lower_boundary = 0x80, upper_boundary = 0xBF\<rparr>"

text \<open>
  What the handler returns for one byte: \<^emph>\<open>continue\<close>, a code point,
  \<^emph>\<open>error\<close>, or \<^emph>\<open>error\<close> after the byte has been put back on the
  input queue.
\<close>

datatype handler_result = Continue | CodePoint nat | Error | ErrorRestored

text \<open>The handler of the UTF-8 decoder, steps 3 to 11, for a byte that is not end-of-queue.\<close>

definition utf8_handler :: "utf8_decoder \<Rightarrow> byte \<Rightarrow> handler_result \<times> utf8_decoder" where
  "utf8_handler d b =
     (if bytes_needed d = 0 then
        (if b \<le> 0x7F then (CodePoint (unat b), d)
         else if 0xC2 \<le> b \<and> b \<le> 0xDF then
           (Continue, d\<lparr>bytes_needed := 1, code_point := unat (b AND 0x1F)\<rparr>)
         else if 0xE0 \<le> b \<and> b \<le> 0xEF then
           (Continue,
            d\<lparr>lower_boundary := (if b = 0xE0 then 0xA0 else lower_boundary d),
              upper_boundary := (if b = 0xED then 0x9F else upper_boundary d),
              bytes_needed := 2, code_point := unat (b AND 0xF)\<rparr>)
         else if 0xF0 \<le> b \<and> b \<le> 0xF4 then
           (Continue,
            d\<lparr>lower_boundary := (if b = 0xF0 then 0x90 else lower_boundary d),
              upper_boundary := (if b = 0xF4 then 0x8F else upper_boundary d),
              bytes_needed := 3, code_point := unat (b AND 0x7)\<rparr>)
         else (Error, d))
      else if \<not> (lower_boundary d \<le> b \<and> b \<le> upper_boundary d) then
        (ErrorRestored, new_utf8_decoder)
      else
        (let d1 = d\<lparr>lower_boundary := 0x80, upper_boundary := 0xBF,
                     code_point := push_bit 6 (code_point d) OR unat (b AND 0x3F),
                     bytes_seen := bytes_seen d + 1\<rparr>
         in if bytes_seen d1 \<noteq> bytes_needed d1 then (Continue, d1)
            else (CodePoint (code_point d1),
                  d1\<lparr>code_point := 0, bytes_needed := 0, bytes_seen := 0\<rparr>)))"

text \<open>
  Running the decoder over the input queue with the error mode
  \<^emph>\<open>replacement\<close>: every error puts U+FFFD on the output. At end-of-queue
  (step 1 and 2 of the handler) a pending sequence is an error, then the
  decoder is finished.
\<close>

function utf8_decode :: "utf8_decoder \<Rightarrow> byte list \<Rightarrow> nat list" where
  "utf8_decode d [] = (if bytes_needed d \<noteq> 0 then [0xFFFD] else [])"
| "utf8_decode d (b # queue) =
     (case utf8_handler d b of
        (Continue, d') \<Rightarrow> utf8_decode d' queue
      | (CodePoint cp, d') \<Rightarrow> cp # utf8_decode d' queue
      | (Error, d') \<Rightarrow> 0xFFFD # utf8_decode d' queue
      | (ErrorRestored, d') \<Rightarrow> 0xFFFD # utf8_decode d' (b # queue))"
  by pat_completeness auto
termination
proof (relation "measure (\<lambda>(d, queue). 2 * length queue + (if bytes_needed d = 0 then 0 else 1))")
  show "wf (measure (\<lambda>(d, queue). 2 * length queue + (if bytes_needed d = 0 then 0 else 1)))"
    by simp
qed (auto simp: utf8_handler_def new_utf8_decoder_def Let_def split: if_splits)

text \<open>
  Serialising the output: with \<^emph>\<open>ignore BOM\<close> false, a first item U+FEFF is
  dropped.
\<close>

fun serialize_io_queue :: "nat list \<Rightarrow> nat list" where
  "serialize_io_queue [] = []"
| "serialize_io_queue (item # output) = (if item = 0xFEFF then output else item # output)"

text \<open>A scalar value as the UTF-16 code units of a JavaScript string.\<close>

definition code_units :: "nat \<Rightarrow> jsstring" where
  "code_units cp =
     (if cp < 0x10000 then [of_nat cp]
      else [of_nat (0xD800 + drop_bit 10 (cp - 0x10000)),
            of_nat (0xDC00 + (cp - 0x10000) mod 0x400)])"

text \<open>
  \<^verbatim>\<open>decoder.decode(read.value)\<close>. The call passes no \<^verbatim>\<open>{stream: true}\<close>, so
  \<^emph>\<open>do not flush\<close> is false: every call starts from a new decoder and an
  unseen byte order mark, reads the chunk to end-of-queue, and serialises.
\<close>

definition decode :: "byte list \<Rightarrow> jsstring" where
  "decode input = concat (map code_units (serialize_io_queue (utf8_decode new_utf8_decoder input)))"

subsection \<open>\<^verbatim>\<open>trimPartialLines\<close>\<close>

text \<open>\<^verbatim>\<open>partialResp[i]\<close>: \<^verbatim>\<open>undefined\<close> outside the string.\<close>

definition char_at :: "jsstring \<Rightarrow> int \<Rightarrow> 16 word option" where
  "char_at s i = (if 0 \<le> i \<and> i < int (length s) then Some (s ! nat i) else None)"

text \<open>\<^verbatim>\<open>partialResp.slice(0, end)\<close>: a negative end counts from the end of the string.\<close>

definition slice0 :: "jsstring \<Rightarrow> int \<Rightarrow> jsstring" where
  "slice0 s e = (if e < 0 then take (nat (int (length s) + e)) s else take (nat e) s)"

text \<open>
  \<^verbatim>\<open>
  while (partialResp[i] !== '\n') {
    if (i <= 0) { return partialResp }
    i -= 1
  }
  return partialResp.slice(0, i + 1)
  \<close>
\<close>

function trim_loop :: "jsstring \<Rightarrow> int \<Rightarrow> jsstring" where
  "trim_loop partialResp i =
     (if char_at partialResp i \<noteq> Some newline
      then (if i \<le> 0 then partialResp else trim_loop partialResp (i - 1))
      else slice0 partialResp (i + 1))"
  by pat_completeness auto
termination
  by (relation "measure (\<lambda>(partialResp, i). nat i)") auto

definition trimPartialLines :: "jsstring \<Rightarrow> jsstring" where
  "trimPartialLines partialResp = trim_loop partialResp (int (length partialResp) - 1)"

subsection \<open>\<^verbatim>\<open>processResponse\<close>\<close>

text \<open>
  The read loop, entered at each \<^verbatim>\<open>await reader.read()\<close> with the text and
  the count so far and the settlements still to come. The first argument is
  \<^verbatim>\<open>FLUX_RESPONSE_BYTES_LIMIT\<close>, a byte count imported from
  \<^verbatim>\<open>src/shared/constants\<close>.
  \<^item> No settlement: the await never returns (\<open>None\<close>).
  \<^item> A rejection: the await throws and nothing catches it.
  \<^item> \<^verbatim>\<open>{done: true}\<close>: the loop ends, \<^verbatim>\<open>didTruncate\<close> still false.
  \<^item> A chunk: it is decoded and counted; over the limit, the trimmed text is
    appended and the loop is left by \<^verbatim>\<open>break\<close>; otherwise the text is
    appended and the next read awaited.
  \<open>csv0\<close> and \<open>n\<close> are the variables \<^verbatim>\<open>csv\<close> and \<^verbatim>\<open>bytesRead\<close> of the
  source. The result comes with the settlements not consumed.
\<close>

fun read_loop ::
  "nat \<Rightarrow> jsstring \<Rightarrow> int \<Rightarrow> read_result settled list \<Rightarrow>
   ((js_error + RunQueryResult) \<times> read_result settled list) option" where
  "read_loop limit csv0 n [] = None"
| "read_loop limit csv0 n (RejectedWith e # rest) = Some (Inl e, rest)"
| "read_loop limit csv0 n (Fulfilled ReadDone # rest) =
     Some (Inr \<lparr>csv = csv0, didTruncate = False, bytesRead = n\<rparr>, rest)"
| "read_loop limit csv0 n (Fulfilled (ReadValue v) # rest) =
     (let text = decode v;
          n' = n + int (length v)
      in if n' > int limit
         then Some (Inr \<lparr>csv = csv0 @ trimPartialLines text, didTruncate = True, bytesRead = n'\<rparr>,
                    rest)
         else read_loop limit (csv0 @ text) n' rest)"

text \<open>\<^verbatim>\<open>reader.cancel()\<close>.\<close>

definition reader_cancel :: "reader \<Rightarrow> reader" where
  "reader_cancel r = r\<lparr>cancel_calls := Suc (cancel_calls r)\<rparr>"

text \<open>
  \<^verbatim>\<open>processResponse\<close>, from \<^verbatim>\<open>response.body.getReader()\<close> on: the loop from
  \<^verbatim>\<open>csv = ''\<close> and \<^verbatim>\<open>bytesRead = 0\<close>, then \<^verbatim>\<open>reader.cancel()\<close> and the
  result. The call of \<^verbatim>\<open>reader.cancel()\<close> stands after the loop and in no
  \<^verbatim>\<open>finally\<close>: a rejected read leaves the function before it. The promise
  that \<^verbatim>\<open>reader.cancel()\<close> returns is not awaited. The response is taken
  to have a body: on one without, \<^verbatim>\<open>response.body.getReader()\<close> throws
  before the loop is reached.
\<close>

definition processResponse ::
  "nat \<Rightarrow> reader \<Rightarrow> ((js_error + RunQueryResult) \<times> reader) option" where
  "processResponse limit r =
     (case read_loop limit [] 0 (pending r) of
        None \<Rightarrow> None
      | Some (Inl e, rest) \<Rightarrow> Some (Inl e, r\<lparr>pending := rest\<rparr>)
      | Some (Inr res, rest) \<Rightarrow> Some (Inr res, reader_cancel (r\<lparr>pending := rest\<rparr>)))"

subsection \<open>\<^verbatim>\<open>runQuery\<close>\<close>

text \<open>
  \<^verbatim>\<open>e.name === 'AbortError' ? Promise.reject(new CancellationError()) : Promise.reject(e)\<close>
\<close>

definition catch_handler :: "js_error \<Rightarrow> rejection" where
  "catch_handler e = (if error_name e = ''AbortError'' then CancellationError else Rethrown e)"

text \<open>
  \<^verbatim>\<open>const promise = request.then(processResponse).catch(...)\<close>, given how
  the request settles: with a rejection, or with a response whose body has
  the given reader.
\<close>

definition promise_chain :: "nat \<Rightarrow> reader settled \<Rightarrow> (rejection + RunQueryResult) option" where
  "promise_chain limit request =
     (case request of
        RejectedWith e \<Rightarrow> Some (Inl (catch_handler e))
      | Fulfilled r \<Rightarrow>
          (case processResponse limit r of
             None \<Rightarrow> None
           | Some (Inl e, r') \<Rightarrow> Some (Inl (catch_handler e))
           | Some (Inr res, r') \<Rightarrow> Some (Inr res)))"

text \<open>
  The signal of an \<^verbatim>\<open>AbortController\<close>, told by the moment at which
  \<^verbatim>\<open>abort()\<close> is called on the controller: after how many of the
  transfer's awaited promises (the fetch first, then the reads) have settled,
  or never. Only the first call counts: a signal is aborted once.
\<close>

type_synonym abort_signal = "nat option"

text \<open>
  The second argument of \<^verbatim>\<open>fetch\<close>, as far as cancellation goes: the
  signal it is given, if any. Method, headers and body do not bear on how
  the response is read.
\<close>

record request_init =
  signal :: "abort_signal option"

text \<open>The \<^verbatim>\<open>DOMException\<close> with which an aborted fetch rejects.\<close>

definition abort_error :: js_error where
  "abort_error = JsError ''AbortError''"

text \<open>
  The platform, as the Fetch Standard has it. \<open>abort_stream k rs\<close> is what
  the reads of a body settle with when the network would settle them with
  \<open>rs\<close> and the signal is aborted after \<open>k\<close> of them: a body that is still
  readable then is errored, so the read that is pending is rejected with the
  abort error; a body that has closed or failed before is left as it is.
\<close>

fun abort_stream :: "nat \<Rightarrow> read_result settled list \<Rightarrow> read_result settled list" where
  "abort_stream 0 rs = [RejectedWith abort_error]"
| "abort_stream (Suc k) [] = [RejectedWith abort_error]"
| "abort_stream (Suc k) (Fulfilled (ReadValue v) # rs) = Fulfilled (ReadValue v) # abort_stream k rs"
| "abort_stream (Suc k) (Fulfilled ReadDone # rs) = Fulfilled ReadDone # rs"
| "abort_stream (Suc k) (RejectedWith e # rs) = RejectedWith e # rs"

text \<open>
  \<open>fetch init net\<close> is how \<^verbatim>\<open>fetch(url, init)\<close> and the reads of its
  response settle when the network alone would settle them as \<open>net\<close>.
  Without a signal, or with one that is never aborted, they settle as the
  network has it. A signal aborted before the response rejects the fetch
  with the abort error; one aborted later aborts the body.
\<close>

fun fetch :: "request_init \<Rightarrow> reader settled \<Rightarrow> reader settled" where
  "fetch init net =
     (case signal init of
        None \<Rightarrow> net
      | Some None \<Rightarrow> net
      | Some (Some 0) \<Rightarrow> RejectedWith abort_error
      | Some (Some (Suc k)) \<Rightarrow>
          (case net of
             RejectedWith e \<Rightarrow> RejectedWith e
           | Fulfilled r \<Rightarrow> Fulfilled (r\<lparr>pending := abort_stream k (pending r)\<rparr>)))"

text \<open>
  \<^verbatim>\<open>runQuery\<close> returns the handle \<^verbatim>\<open>{promise, cancel}\<close>. The second
  argument is what the caller does with \<^verbatim>\<open>cancel\<close>: the moment of its first
  call, or \<open>None\<close> when it is never called. \<^verbatim>\<open>cancel\<close> is
  \<^verbatim>\<open>() => controller.abort()\<close>, so this is the signal of the controller,
  and \<^verbatim>\<open>fetch\<close> is given \<^verbatim>\<open>signal: controller.signal\<close>. The value is how the
  handle's \<^verbatim>\<open>promise\<close> settles (\<open>None\<close>: never).
\<close>

definition runQuery :: "nat \<Rightarrow> nat option \<Rightarrow> reader settled \<Rightarrow> (rejection + RunQueryResult) option" where
  "runQuery limit cancel net =
     (let controller_signal = cancel;
          request = fetch \<lparr>signal = Some controller_signal\<rparr> net
      in promise_chain limit request)"

text \<open>
  Whether the handle's promise is still unsettled when \<open>k\<close> of the awaited
  promises have settled and nothing has been cancelled: before the fetch
  settles it always is; after a rejected fetch it never is; after the
  response and \<open>k\<close> reads it is when the chain, fed these reads and no more,
  has not settled.
\<close>

fun still_pending :: "nat \<Rightarrow> nat \<Rightarrow> reader settled \<Rightarrow> bool" where
  "still_pending limit 0 net = True"
| "still_pending limit (Suc k) (RejectedWith e) = False"
| "still_pending limit (Suc k) (Fulfilled r) =
     (promise_chain limit (Fulfilled (r\<lparr>pending := take k (pending r)\<rparr>)) = None)"

subsection \<open>Payloads\<close>

text \<open>
  A payload arrives as a list of chunks. \<open>deliver\<close> is the byte source
  handing them over one read at a time and \<open>total_bytes\<close> their total
  size. \<open>decoded_text\<close> is the per-chunk text: every chunk decoded on its
  own, as the loop does, and the texts put together. The payload's decoded
  text is \<open>decode (concat chunks)\<close>, the decoding of the bytes as one
  stream; the two differ where a chunk boundary splits a character.
\<close>

definition deliver :: "byte list list \<Rightarrow> read_result settled list" where
  "deliver chunks = map (\<lambda>v. Fulfilled (ReadValue v)) chunks"

definition total_bytes :: "byte list list \<Rightarrow> int" where
  "total_bytes chunks = sum_list (map (\<lambda>v. int (length v)) chunks)"

definition decoded_text :: "byte list list \<Rightarrow> jsstring" where
  "decoded_text chunks = concat (map decode chunks)"

text \<open>The bytes of the chunks among a run of read settlements.\<close>

fun observed_bytes :: "read_result settled list \<Rightarrow> int" where
  "observed_bytes [] = 0"
| "observed_bytes (Fulfilled (ReadValue v) # rs) = int (length v) + observed_bytes rs"
| "observed_bytes (_ # rs) = observed_bytes rs"

subsection \<open>Chunk boundaries and characters\<close>

text \<open>
  The state in which the decoder is left by some bytes, before end-of-queue
  is signalled: the same run as \<open>utf8_decode\<close>, without the output.
\<close>

function utf8_pending :: "utf8_decoder \<Rightarrow> byte list \<Rightarrow> utf8_decoder" where
  "utf8_pending d [] = d"
| "utf8_pending d (b # queue) =
     (case utf8_handler d b of
        (ErrorRestored, d') \<Rightarrow> utf8_pending d' (b # queue)
      | (_, d') \<Rightarrow> utf8_pending d' queue)"
  by pat_completeness auto
termination
proof (relation "measure (\<lambda>(d, queue). 2 * length queue + (if bytes_needed d = 0 then 0 else 1))")
  show "wf (measure (\<lambda>(d, queue). 2 * length queue + (if bytes_needed d = 0 then 0 else 1)))"
    by simp
qed (auto simp: utf8_handler_def new_utf8_decoder_def Let_def split: if_splits)

text \<open>A chunk ends between two characters when the decoder needs no more bytes after it.\<close>

definition ends_between_characters :: "byte list \<Rightarrow> bool" where
  "ends_between_characters c \<longleftrightarrow> bytes_needed (utf8_pending new_utf8_decoder c) = 0"

text \<open>A chunk begins with a byte order mark when its first decoded item is U+FEFF.\<close>

definition begins_with_bom :: "byte list \<Rightarrow> bool" where
  "begins_with_bom c \<longleftrightarrow>
     (case utf8_decode new_utf8_decoder c of [] \<Rightarrow> False | item # _ \<Rightarrow> item = 0xFEFF)"

text \<open>
  The chunks of a payload are aligned when every chunk but the last ends
  between two characters and no chunk but the first begins with a byte order
  mark.
\<close>

definition aligned :: "byte list list \<Rightarrow> bool" where
  "aligned chunks \<longleftrightarrow>
     list_all ends_between_characters (butlast chunks) \<and>
     list_all (\<lambda>c. \<not> begins_with_bom c) (tl chunks)"

subsection \<open>The payload of the concrete scenarios\<close>

text \<open>
  \<^verbatim>\<open>"a,b\nc,d\ne,f\n"\<close>, twelve bytes, as bytes and as the string
  it decodes to.
\<close>

abbreviation scenario_payload :: "byte list" where
  "scenario_payload \<equiv>
     [0x61, 0x2C, 0x62, 0x0A, 0x63, 0x2C, 0x64, 0x0A, 0x65, 0x2C, 0x66, 0x0A]"

abbreviation scenario_text :: jsstring where
  "scenario_text \<equiv>
     [0x61, 0x2C, 0x62, 0x0A, 0x63, 0x2C, 0x64, 0x0A, 0x65, 0x2C, 0x66, 0x0A]"

section \<open>Properties of \<^verbatim>\<open>trimPartialLines\<close>\<close>

text \<open>
  Going down from \<open>i\<close> to \<open>i'\<close> over characters that are not newlines,
  the loop neither returns nor slices.
\<close>

lemma trim_loop_descend:
  assumes "0 \<le> i'" and "i' \<le> i"
    and "\<forall>j. i' < j \<and> j \<le> i \<longrightarrow> char_at s j \<noteq> Some newline"
  shows "trim_loop s i = trim_loop s i'"
  using assms
proof (induction "nat (i - i')" arbitrary: i)
  case 0
  then show ?case by simp
next
  case (Suc k)
  from Suc.hyps(2) Suc.prems have pos: "0 < i" and gt: "i' < i" by linarith+
  with Suc.prems have "char_at s i \<noteq> Some newline" by simp
  with pos have step: "trim_loop s i = trim_loop s (i - 1)"
    by (subst trim_loop.simps) simp
  have "trim_loop s (i - 1) = trim_loop s i'"
  proof (rule Suc.hyps(1))
    show "k = nat (i - 1 - i')" using Suc.hyps(2) by linarith
    show "0 \<le> i'" by fact
    show "i' \<le> i - 1" using gt by simp
    show "\<forall>j. i' < j \<and> j \<le> i - 1 \<longrightarrow> char_at s j \<noteq> Some newline"
      using Suc.prems(3) by simp
  qed
  with step show ?case by simp
qed

lemma char_at_no_newline:
  assumes "newline \<notin> set s"
  shows "char_at s j \<noteq> Some newline"
proof (cases "0 \<le> j \<and> j < int (length s)")
  case True
  then have "nat j < length s" by linarith
  then have "s ! nat j \<in> set s" by (rule nth_mem)
  with assms have "s ! nat j \<noteq> newline" by metis
  with True show ?thesis by (simp add: char_at_def)
next
  case False
  then show ?thesis by (auto simp: char_at_def)
qed

lemma trimPartialLines_no_newline:
  assumes "newline \<notin> set s"
  shows "trimPartialLines s = s"
proof (cases "s = []")
  case True
  then show ?thesis
    by (simp add: trimPartialLines_def trim_loop.simps char_at_def)
next
  case False
  then have "0 \<le> int (length s) - 1" by (cases s) simp_all
  then have "trim_loop s (int (length s) - 1) = trim_loop s 0"
    using assms by (intro trim_loop_descend) (simp_all add: char_at_no_newline)
  also have "\<dots> = s"
    using assms by (subst trim_loop.simps) (simp add: char_at_no_newline)
  finally show ?thesis by (simp add: trimPartialLines_def)
qed

lemma trimPartialLines_last_newline:
  assumes "newline \<notin> set zs"
  shows "trimPartialLines (ys @ newline # zs) = ys @ [newline]"
proof -
  let ?s = "ys @ newline # zs"
  have tail: "\<forall>j. int (length ys) < j \<and> j \<le> int (length ?s) - 1 \<longrightarrow> char_at ?s j \<noteq> Some newline"
  proof (intro allI impI)
    fix j :: int
    assume j: "int (length ys) < j \<and> j \<le> int (length ?s) - 1"
    then have "nat j - length ys - 1 < length zs" by auto
    then have "zs ! (nat j - length ys - 1) \<in> set zs" by (rule nth_mem)
    moreover have "?s ! nat j = zs ! (nat j - length ys - 1)"
      using j by (auto simp: nth_append nth_Cons')
    ultimately show "char_at ?s j \<noteq> Some newline"
      using assms j by (auto simp: char_at_def)
  qed
  have "trim_loop ?s (int (length ?s) - 1) = trim_loop ?s (int (length ys))"
    using tail by (intro trim_loop_descend) simp_all
  also have "\<dots> = ys @ [newline]"
    by (subst trim_loop.simps) (simp add: char_at_def slice0_def nat_add_distrib)
  finally show ?thesis by (simp add: trimPartialLines_def)
qed



lemma trimPartialLines_newline_terminated:
  assumes "s \<noteq> []" and "last s = newline"
  shows "trimPartialLines s = s"
proof -
  from assms have "s = butlast s @ newline # []" by (metis append_butlast_last_id)
  moreover have "trimPartialLines (butlast s @ newline # []) = butlast s @ [newline]"
    by (rule trimPartialLines_last_newline) simp
  ultimately show ?thesis by simp
qed

section \<open>Properties of the read loop\<close>

lemma total_bytes_nonneg: "0 \<le> total_bytes chunks"
  by (induction chunks) (simp_all add: total_bytes_def)

lemma total_bytes_append: "total_bytes (xs @ ys) = total_bytes xs + total_bytes ys"
  by (simp add: total_bytes_def)

lemma decoded_text_append: "decoded_text (xs @ ys) = decoded_text xs @ decoded_text ys"
  by (simp add: decoded_text_def)

lemma read_loop_deliver:
  "n + total_bytes pre \<le> int limit \<Longrightarrow>
   read_loop limit c n (deliver pre @ rest) =
   read_loop limit (c @ decoded_text pre) (n + total_bytes pre) rest"
proof (induction pre arbitrary: c n)
  case Nil
  then show ?case by (simp add: deliver_def total_bytes_def decoded_text_def)
next
  case (Cons v pre)
  have split: "total_bytes (v # pre) = int (length v) + total_bytes pre"
    by (simp add: total_bytes_def)
  have "n + int (length v) \<le> int limit"
    using Cons.prems total_bytes_nonneg [of pre] by (simp add: split)
  moreover have "read_loop limit ((c @ decode v)) (n + int (length v)) (deliver pre @ rest) =
      read_loop limit ((c @ decode v) @ decoded_text pre) (n + int (length v) + total_bytes pre) rest"
    using Cons.prems by (intro Cons.IH) (simp add: split)
  ultimately show ?case
    by (simp add: deliver_def split decoded_text_def add.assoc)
qed

lemma processResponse_deliver:
  assumes "total_bytes pre \<le> int limit"
  shows "processResponse limit \<lparr>pending = deliver pre @ rest, cancel_calls = k\<rparr> =
     (case read_loop limit (decoded_text pre) (total_bytes pre) rest of
        None \<Rightarrow> None
      | Some (Inl e, rest') \<Rightarrow> Some (Inl e, \<lparr>pending = rest', cancel_calls = k\<rparr>)
      | Some (Inr res, rest') \<Rightarrow> Some (Inr res, \<lparr>pending = rest', cancel_calls = Suc k\<rparr>))"
  using assms read_loop_deliver [of 0 pre limit "[]" rest]
  by (simp add: processResponse_def reader_cancel_def split: option.splits sum.splits prod.splits)


lemma processResponse_crossing:
  assumes "total_bytes pre \<le> int limit" and "int limit < total_bytes pre + int (length c)"
  shows "processResponse limit \<lparr>pending = deliver pre @ Fulfilled (ReadValue c) # rest, cancel_calls = k\<rparr> =
     Some (Inr \<lparr>csv = decoded_text pre @ trimPartialLines (decode c), didTruncate = True,
                bytesRead = total_bytes pre + int (length c)\<rparr>,
           \<lparr>pending = rest, cancel_calls = Suc k\<rparr>)"
  using assms by (simp add: processResponse_deliver)

lemma read_loop_invariant:
  "read_loop limit c n script = Some (Inr res, rest) \<Longrightarrow> 0 \<le> n \<Longrightarrow> n \<le> int limit \<Longrightarrow>
   (\<not> didTruncate res \<longrightarrow> bytesRead res \<le> int limit) \<and>
   (didTruncate res \<longrightarrow> int limit < bytesRead res) \<and>
   0 \<le> bytesRead res \<and>
   (\<exists>consumed. script = consumed @ rest \<and> bytesRead res = n + observed_bytes consumed)"
proof (induction limit c n script rule: read_loop.induct)
  case (1 limit csv0 n)
  then show ?case by simp
next
  case (2 limit csv0 n e rest')
  then show ?case by simp
next
  case (3 limit csv0 n rest')
  then have "Fulfilled ReadDone # rest' = [Fulfilled ReadDone] @ rest \<and>
      bytesRead res = n + observed_bytes [Fulfilled ReadDone]" by auto
  with 3 show ?case by auto
next
  case (4 limit csv0 n v rest')
  show ?case
  proof (cases "int limit < n + int (length v)")
    case True
    with 4 have "Fulfilled (ReadValue v) # rest' = [Fulfilled (ReadValue v)] @ rest \<and>
      bytesRead res = n + observed_bytes [Fulfilled (ReadValue v)]" by auto
    moreover from True 4 have "didTruncate res \<and> bytesRead res = n + int (length v)" by auto
    ultimately show ?thesis using True 4 by (metis add_nonneg_nonneg of_nat_0_le_iff)
  next
    case False
    with 4 have run: "read_loop limit (csv0 @ decode v) (n + int (length v)) rest' = Some (Inr res, rest)"
      by simp
    have "(\<not> didTruncate res \<longrightarrow> bytesRead res \<le> int limit) \<and>
      (didTruncate res \<longrightarrow> int limit < bytesRead res) \<and> 0 \<le> bytesRead res \<and>
      (\<exists>consumed. rest' = consumed @ rest \<and>
         bytesRead res = n + int (length v) + observed_bytes consumed)"
      using False 4 run by (intro "4.IH") simp_all
    then obtain consumed where inv: "\<not> didTruncate res \<longrightarrow> bytesRead res \<le> int limit"
      "didTruncate res \<longrightarrow> int limit < bytesRead res" "0 \<le> bytesRead res"
      "rest' = consumed @ rest" "bytesRead res = n + int (length v) + observed_bytes consumed"
      by blast
    then have "Fulfilled (ReadValue v) # rest' = (Fulfilled (ReadValue v) # consumed) @ rest \<and>
      bytesRead res = n + observed_bytes (Fulfilled (ReadValue v) # consumed)" by simp
    with inv show ?thesis by blast
  qed
qed

section \<open>Properties of the decoder\<close>

lemma utf8_handler_fresh:
  "d = new_utf8_decoder \<or> bytes_needed d \<noteq> 0 \<Longrightarrow> utf8_handler d b = (r, d') \<Longrightarrow>
   d' = new_utf8_decoder \<or> bytes_needed d' \<noteq> 0"
  by (auto simp: utf8_handler_def new_utf8_decoder_def Let_def split: if_splits)

lemma utf8_pending_fresh:
  "d = new_utf8_decoder \<or> bytes_needed d \<noteq> 0 \<Longrightarrow>
   utf8_pending d a = new_utf8_decoder \<or> bytes_needed (utf8_pending d a) \<noteq> 0"
proof (induction d a rule: utf8_pending.induct)
  case (1 d)
  then show ?case by simp
next
  case (2 d b queue)
  obtain r d' where h: "utf8_handler d b = (r, d')" by (cases "utf8_handler d b")
  with "2.prems" have f: "d' = new_utf8_decoder \<or> bytes_needed d' \<noteq> 0"
    by (rule utf8_handler_fresh)
  show ?case
  proof (cases r)
    case Continue
    with h f "2.IH"(1) [of r d'] show ?thesis by simp
  next
    case (CodePoint cp)
    with h f "2.IH"(2) [of r d' cp] show ?thesis by simp
  next
    case Error
    with h f "2.IH"(3) [of r d'] show ?thesis by simp
  next
    case ErrorRestored
    with h f "2.IH"(4) [of r d'] show ?thesis by simp
  qed
qed

lemma utf8_pending_new:
  "ends_between_characters a \<Longrightarrow> utf8_pending new_utf8_decoder a = new_utf8_decoder"
  using utf8_pending_fresh [of new_utf8_decoder a] by (simp add: ends_between_characters_def)

lemma utf8_decode_append:
  "bytes_needed (utf8_pending d a) = 0 \<Longrightarrow>
   utf8_decode d (a @ b') = utf8_decode d a @ utf8_decode (utf8_pending d a) b'"
proof (induction d a rule: utf8_decode.induct)
  case (1 d)
  then show ?case by simp
next
  case (2 d b queue)
  obtain r d' where h: "utf8_handler d b = (r, d')" by (cases "utf8_handler d b")
  show ?case
  proof (cases r)
    case Continue
    with h "2.prems" "2.IH"(1) [of r d'] show ?thesis by simp
  next
    case (CodePoint cp)
    with h "2.prems" "2.IH"(2) [of r d' cp] show ?thesis by simp
  next
    case Error
    with h "2.prems" "2.IH"(3) [of r d'] show ?thesis by simp
  next
    case ErrorRestored
    with h "2.prems" "2.IH"(4) [of r d'] show ?thesis by simp
  qed
qed

lemma utf8_pending_append:
  "utf8_pending d (a @ b') = utf8_pending (utf8_pending d a) b'"
proof (induction d a rule: utf8_pending.induct)
  case (1 d)
  then show ?case by simp
next
  case (2 d b queue)
  obtain r d' where h: "utf8_handler d b = (r, d')" by (cases "utf8_handler d b")
  show ?case
  proof (cases r)
    case Continue
    with h "2.IH"(1) [of r d'] show ?thesis by simp
  next
    case (CodePoint cp)
    with h "2.IH"(2) [of r d' cp] show ?thesis by simp
  next
    case Error
    with h "2.IH"(3) [of r d'] show ?thesis by simp
  next
    case ErrorRestored
    with h "2.IH"(4) [of r d'] show ?thesis by simp
  qed
qed

lemma ends_between_characters_append:
  assumes "ends_between_characters a" and "ends_between_characters b'"
  shows "ends_between_characters (a @ b')"
proof -
  have "utf8_pending new_utf8_decoder (a @ b') = utf8_pending new_utf8_decoder b'"
    by (simp add: utf8_pending_append utf8_pending_new [OF assms(1)])
  with assms(2) show ?thesis by (simp add: ends_between_characters_def)
qed

lemma ends_between_characters_Nil: "ends_between_characters []"
  by (simp add: ends_between_characters_def new_utf8_decoder_def)

lemma ends_between_characters_concat:
  "list_all ends_between_characters cs \<Longrightarrow> ends_between_characters (concat cs)"
  by (induction cs) (simp_all add: ends_between_characters_append ends_between_characters_Nil)

lemma serialize_io_queue_append:
  "xs \<noteq> [] \<Longrightarrow> serialize_io_queue (xs @ ys) = serialize_io_queue xs @ ys"
  by (cases xs) simp_all

lemma serialize_io_queue_no_bom:
  "\<not> begins_with_bom c \<Longrightarrow>
   serialize_io_queue (utf8_decode new_utf8_decoder c) = utf8_decode new_utf8_decoder c"
  by (cases "utf8_decode new_utf8_decoder c") (simp_all add: begins_with_bom_def)

lemma decode_append:
  assumes "ends_between_characters a" and "\<not> begins_with_bom b'"
  shows "decode (a @ b') = decode a @ decode b'"
proof -
  have raw: "utf8_decode new_utf8_decoder (a @ b') =
      utf8_decode new_utf8_decoder a @ utf8_decode new_utf8_decoder b'"
    using utf8_decode_append [of new_utf8_decoder a b'] utf8_pending_new [OF assms(1)]
    by (simp add: new_utf8_decoder_def)
  show ?thesis
  proof (cases "utf8_decode new_utf8_decoder a = []")
    case True
    with raw assms(2) show ?thesis
      by (simp add: decode_def serialize_io_queue_no_bom)
  next
    case False
    with raw assms(2) show ?thesis
      by (simp add: decode_def serialize_io_queue_no_bom serialize_io_queue_append)
  qed
qed

lemma decode_concat_aligned:
  "aligned chunks \<Longrightarrow> decode (concat chunks) = decoded_text chunks"
proof (induction chunks rule: rev_induct)
  case Nil
  then show ?case by (simp add: decoded_text_def decode_def new_utf8_decoder_def)
next
  case (snoc c cs)
  show ?case
  proof (cases "cs = []")
    case True
    then show ?thesis by (simp add: decoded_text_def)
  next
    case False
    with snoc.prems have all: "list_all ends_between_characters cs"
      and nobom: "\<not> begins_with_bom c" and tl: "list_all (\<lambda>c. \<not> begins_with_bom c) (tl cs)"
      by (simp_all add: aligned_def)
    from all have "list_all ends_between_characters (butlast cs)"
      by (auto simp: list_all_iff dest: in_set_butlastD)
    with tl have "aligned cs" by (simp add: aligned_def)
    then have IH: "decode (concat cs) = decoded_text cs" by (rule snoc.IH)
    have "decode (concat cs @ c) = decode (concat cs) @ decode c"
      using all nobom by (intro decode_append ends_between_characters_concat)
    with IH show ?thesis by (simp add: decoded_text_def)
  qed
qed

text \<open>
  A chunk whose last byte is the line feed decodes to a text whose last
  character is the newline, whatever precedes it: the byte is below every
  lower boundary, so it ends a pending sequence and is decoded afresh.
\<close>

lemma utf8_handler_lower_boundary:
  "0x80 \<le> lower_boundary d \<Longrightarrow> utf8_handler d b = (r, d') \<Longrightarrow> 0x80 \<le> lower_boundary d'"
  by (auto simp: utf8_handler_def new_utf8_decoder_def Let_def split: if_splits)

lemma utf8_decode_newline_end:
  "queue = bs @ [0x0A] \<Longrightarrow> 0x80 \<le> lower_boundary d \<Longrightarrow>
   utf8_decode d queue \<noteq> [] \<and> last (utf8_decode d queue) = 0x0A"
proof (induction d queue arbitrary: bs rule: utf8_decode.induct)
  case (1 d)
  then show ?case by simp
next
  case (2 d b queue)
  obtain r d' where h: "utf8_handler d b = (r, d')" by (cases "utf8_handler d b")
  with "2.prems"(2) have lb: "0x80 \<le> lower_boundary d'" by (rule utf8_handler_lower_boundary)
  show ?case
  proof (cases bs)
    case Nil
    with "2.prems" have b: "b = 0x0A" and q: "queue = []" by simp_all
    show ?thesis
    proof (cases "bytes_needed d = 0")
      case True
      then show ?thesis by (simp add: b q utf8_handler_def)
    next
      case False
      have "\<not> lower_boundary d \<le> (0x0A :: byte)"
      proof
        assume "lower_boundary d \<le> 0x0A"
        with "2.prems"(2) have "(0x80 :: byte) \<le> 0x0A" by (rule order_trans)
        then show False by simp
      qed
      with False show ?thesis
        by (simp add: b q utf8_handler_def new_utf8_decoder_def)
    qed
  next
    case (Cons x bs')
    with "2.prems" have q: "queue = bs' @ [0x0A]" by simp
    show ?thesis
    proof (cases r)
      case Continue
      with h q lb "2.IH"(1) [of r d' bs'] show ?thesis by simp
    next
      case (CodePoint cp)
      with h q lb "2.IH"(2) [of r d' cp bs'] show ?thesis by simp
    next
      case Error
      with h q lb "2.IH"(3) [of r d' bs'] show ?thesis by simp
    next
      case ErrorRestored
      with h have "utf8_decode d' (b # queue) \<noteq> [] \<and> last (utf8_decode d' (b # queue)) = 0x0A"
        using "2.prems"(1) lb by (intro "2.IH"(4) [of r d' bs]) simp_all
      with h ErrorRestored show ?thesis by simp
    qed
  qed
qed

lemma decode_newline_end:
  assumes "c \<noteq> []" and "last c = 0x0A"
  shows "decode c \<noteq> [] \<and> last (decode c) = newline"
proof -
  from assms have "c = butlast c @ [0x0A]" by (metis append_butlast_last_id)
  then have raw: "utf8_decode new_utf8_decoder c \<noteq> [] \<and> last (utf8_decode new_utf8_decoder c) = 0x0A"
    by (rule utf8_decode_newline_end) (simp add: new_utf8_decoder_def)
  then obtain items where items: "serialize_io_queue (utf8_decode new_utf8_decoder c) = items @ [0x0A]"
  proof (cases "utf8_decode new_utf8_decoder c")
    case Nil
    with raw show ?thesis by simp
  next
    case (Cons item items')
    show ?thesis
    proof (cases "items' = []")
      case True
      with Cons raw have "serialize_io_queue (utf8_decode new_utf8_decoder c) = [] @ [0x0A]" by simp
      then show ?thesis by (rule that)
    next
      case False
      with Cons raw have "items' = butlast items' @ [0x0A]" by (metis append_butlast_last_id last_ConsR)
      then have "serialize_io_queue (item # items') =
          (if item = 0xFEFF then butlast items' else item # butlast items') @ [0x0A]"
        by simp
      with Cons show ?thesis by (intro that) simp
    qed
  qed
  then show ?thesis by (simp add: decode_def code_units_def newline_def)
qed

section \<open>The per-chunk text of a run\<close>

text \<open>
  A payload within the cap comes back unflagged, with all its bytes counted
  and with its per-chunk text, every chunk in full and in order; with aligned
  chunks that is the payload's decoded text.
\<close>

lemma processResponse_within_cap:
  assumes "total_bytes chunks \<le> int limit"
  shows "processResponse limit
       \<lparr>pending = deliver chunks @ Fulfilled ReadDone # rest, cancel_calls = k\<rparr> =
     Some (Inr \<lparr>csv = decoded_text chunks, didTruncate = False,
                bytesRead = total_bytes chunks\<rparr>,
           \<lparr>pending = rest, cancel_calls = Suc k\<rparr>) \<and>
     (aligned chunks \<longrightarrow> decoded_text chunks = decode (concat chunks))"
  using assms by (simp add: processResponse_deliver decode_concat_aligned)

text \<open>
  A crossing chunk whose text ends with a newline is appended whole, so the
  flagged Result holds the per-chunk text of all chunks received.
\<close>

lemma processResponse_newline_terminated_chunk:
  assumes "total_bytes pre \<le> int limit" and "int limit < total_bytes pre + int (length c)"
    and "decode c \<noteq> []" and "last (decode c) = newline"
  shows "processResponse limit
       \<lparr>pending = deliver pre @ Fulfilled (ReadValue c) # rest, cancel_calls = k\<rparr> =
     Some (Inr \<lparr>csv = decoded_text (pre @ [c]), didTruncate = True,
                bytesRead = total_bytes (pre @ [c])\<rparr>,
           \<lparr>pending = rest, cancel_calls = Suc k\<rparr>) \<and>
     trimPartialLines (decode c) = decode c \<and>
     (aligned (pre @ [c]) \<longrightarrow> decoded_text (pre @ [c]) = decode (concat (pre @ [c])))"
proof -
  have keep: "trimPartialLines (decode c) = decode c"
    using assms(3,4) by (rule trimPartialLines_newline_terminated)
  have "processResponse limit
       \<lparr>pending = deliver pre @ Fulfilled (ReadValue c) # rest, cancel_calls = k\<rparr> =
     Some (Inr \<lparr>csv = decoded_text pre @ trimPartialLines (decode c), didTruncate = True,
                bytesRead = total_bytes pre + int (length c)\<rparr>,
           \<lparr>pending = rest, cancel_calls = Suc k\<rparr>)"
    using assms(1,2) by (rule processResponse_crossing)
  moreover have "aligned (pre @ [c]) \<longrightarrow> decoded_text (pre @ [c]) = decode (concat (pre @ [c]))"
    using decode_concat_aligned [of "pre @ [c]"] by simp
  ultimately show ?thesis using keep by (simp add: decoded_text_def total_bytes_def)
qed

section \<open>Properties of cancellation\<close>

text \<open>
  The chain is unsettled on a response exactly when the loop is still
  waiting for a read.
\<close>

lemma promise_chain_pending:
  "promise_chain limit (Fulfilled r) = None \<longleftrightarrow> read_loop limit [] 0 (pending r) = None"
  by (auto simp: promise_chain_def processResponse_def split: option.splits sum.splits prod.splits)

text \<open>
  A loop that is still waiting after \<open>k\<close> reads meets the abort error at the
  next one.
\<close>

lemma read_loop_aborted:
  "read_loop limit c n (take k rs) = None \<Longrightarrow>
   read_loop limit c n (abort_stream k rs) = Some (Inl abort_error, [])"
proof (induction k rs arbitrary: c n rule: abort_stream.induct)
  case (1 rs)
  then show ?case by simp
next
  case (2 k)
  then show ?case by simp
next
  case (3 k v rs)
  then show ?case by (simp add: Let_def split: if_splits)
next
  case (4 k rs)
  then show ?case by simp
next
  case (5 k e rs)
  then show ?case by simp
qed

text \<open>A loop that has ended within \<open>k\<close> reads ends the same way under the abort.\<close>

lemma read_loop_abort_too_late:
  "read_loop limit c n (take k rs) \<noteq> None \<Longrightarrow>
   map_option fst (read_loop limit c n (abort_stream k rs)) =
   map_option fst (read_loop limit c n rs)"
proof (induction k rs arbitrary: c n rule: abort_stream.induct)
  case (1 rs)
  then show ?case by simp
next
  case (2 k)
  then show ?case by simp
next
  case (3 k v rs)
  then show ?case by (simp add: Let_def split: if_splits)
next
  case (4 k rs)
  then show ?case by simp
next
  case (5 k e rs)
  then show ?case by simp
qed

text \<open>
  A call of \<^verbatim>\<open>cancel\<close> after the promise has settled changes nothing, and
  so does a handle on which \<^verbatim>\<open>cancel\<close> is never called: the promise settles
  as the chain does on the network's settlements.
\<close>

lemma runQuery_cancel_after_settling:
  assumes "\<not> still_pending limit k net"
  shows "runQuery limit (Some k) net = runQuery limit None net"
proof (cases k)
  case 0
  with assms show ?thesis by simp
next
  case (Suc j)
  show ?thesis
  proof (cases net)
    case (RejectedWith e)
    then show ?thesis by (simp add: Suc runQuery_def)
  next
    case (Fulfilled r)
    with assms Suc have "read_loop limit [] 0 (take j (pending r)) \<noteq> None"
      by (simp add: promise_chain_pending)
    then have "map_option fst (read_loop limit [] 0 (abort_stream j (pending r))) =
        map_option fst (read_loop limit [] 0 (pending r))"
      by (rule read_loop_abort_too_late)
    then show ?thesis
      by (auto simp: Suc Fulfilled runQuery_def promise_chain_def processResponse_def
          split: option.splits sum.splits prod.splits)
  qed
qed

lemma runQuery_never_cancelled: "runQuery limit None net = promise_chain limit net"
  by (simp add: runQuery_def)

section \<open>Evaluation\<close>

text \<open>The defining equations that evaluate the model on a concrete input.\<close>

lemmas decode_eval = decode_def utf8_handler_def new_utf8_decoder_def code_units_def Let_def
lemmas trim_eval = trimPartialLines_def char_at_def slice0_def newline_def
lemmas run_eval = processResponse_def reader_cancel_def deliver_def total_bytes_def decoded_text_def

section \<open>The claims about \<^verbatim>\<open>trimPartialLines\<close>\<close>

text \<open>
  C6. For every text fragment, \<^verbatim>\<open>trimPartialLines\<close> returns the longest
  prefix of the fragment that ends with a newline, the last newline of the
  fragment included: the result is a prefix of the fragment, it ends with a
  newline, and no prefix of the fragment that ends with a newline is longer.
  A fragment without a newline, the empty one among them, is returned
  unchanged. The function is total: the loop ends on every fragment.
\<close>

theorem trimPartialLines_longest_prefix:
  "(newline \<notin> set s \<longrightarrow> trimPartialLines s = s) \<and>
   (newline \<in> set s \<longrightarrow>
      prefix (trimPartialLines s) s \<and>
      trimPartialLines s \<noteq> [] \<and> last (trimPartialLines s) = newline \<and>
      (\<forall>p. prefix p s \<and> p \<noteq> [] \<and> last p = newline \<longrightarrow>
           length p \<le> length (trimPartialLines s)))"
proof (intro conjI impI)
  assume "newline \<notin> set s"
  then show "trimPartialLines s = s" by (rule trimPartialLines_no_newline)
next
  assume "newline \<in> set s"
  then obtain ys zs where s: "s = ys @ newline # zs" and zs: "newline \<notin> set zs"
    by (auto dest: split_list_last)
  have t: "trimPartialLines s = ys @ [newline]"
    using zs by (simp add: s trimPartialLines_last_newline)
  show "prefix (trimPartialLines s) s" unfolding t by (simp add: s)
  show "trimPartialLines s \<noteq> []" by (simp add: t)
  show "last (trimPartialLines s) = newline" by (simp add: t)
  show "\<forall>p. prefix p s \<and> p \<noteq> [] \<and> last p = newline \<longrightarrow>
           length p \<le> length (trimPartialLines s)"
  proof (intro allI impI)
    fix p assume p: "prefix p s \<and> p \<noteq> [] \<and> last p = newline"
    show "length p \<le> length (trimPartialLines s)"
    proof (rule ccontr)
      assume "\<not> length p \<le> length (trimPartialLines s)"
      then have long: "length ys + 1 < length p" by (simp add: t)
      from p obtain r where r: "s = p @ r" by (auto simp: prefix_def)
      define n where "n = length p - 1"
      have n: "length ys < n" "n < length p" using long by (simp_all add: n_def)
      from p have "p ! n = newline" by (auto simp: last_conv_nth n_def)
      moreover have "p ! n = s ! n"
        using n by (simp add: r nth_append)
      moreover have "s ! n = zs ! (n - length ys - 1)"
        using n by (simp add: s nth_append nth_Cons')
      moreover have "n - length ys - 1 < length zs"
      proof -
        have "length p \<le> length s" by (simp add: r)
        then show ?thesis using n by (simp add: s)
      qed
      ultimately have "newline \<in> set zs" by (metis nth_mem)
      with zs show False by simp
    qed
  qed
qed

text \<open>
  At \<^verbatim>\<open>"a\nb\nc"\<close> the result is \<^verbatim>\<open>"a\nb\n"\<close>, which is not shorter than
  the prefix \<^verbatim>\<open>"a\n"\<close>; \<^verbatim>\<open>"abc"\<close> and the empty fragment come back
  unchanged.
\<close>

theorem trimPartialLines_longest_prefix_witness:
  "newline \<in> set [0x61, 0x0A, 0x62, 0x0A, 0x63] \<and>
   trimPartialLines [0x61, 0x0A, 0x62, 0x0A, 0x63] = [0x61, 0x0A, 0x62, 0x0A] \<and>
   prefix (trimPartialLines [0x61, 0x0A, 0x62, 0x0A, 0x63]) [0x61, 0x0A, 0x62, 0x0A, 0x63] \<and>
   last (trimPartialLines [0x61, 0x0A, 0x62, 0x0A, 0x63]) = newline \<and>
   prefix [0x61, 0x0A] [0x61, 0x0A, 0x62, 0x0A, 0x63] \<and> last [0x61, 0x0A] = newline \<and>
   length [0x61, 0x0A :: 16 word] \<le> length (trimPartialLines [0x61, 0x0A, 0x62, 0x0A, 0x63]) \<and>
   newline \<notin> set [0x61, 0x62, 0x63] \<and>
   trimPartialLines [0x61, 0x62, 0x63] = [0x61, 0x62, 0x63] \<and>
   newline \<notin> set [] \<and> trimPartialLines [] = []"
  using trimPartialLines_longest_prefix [of "[0x61, 0x0A, 0x62, 0x0A, 0x63]"]
    trimPartialLines_longest_prefix [of "[0x61, 0x62, 0x63]"]
    trimPartialLines_longest_prefix [of "[]"]
  by (simp add: newline_def trimPartialLines_def char_at_def slice0_def)

text \<open>
  C7. \<^verbatim>\<open>trimPartialLines\<close> is idempotent: a fragment that already ends
  with a newline is returned unchanged, and trimming a trimmed fragment
  changes nothing, for every fragment.
\<close>

theorem trimPartialLines_idempotent:
  "(s \<noteq> [] \<and> last s = newline \<longrightarrow> trimPartialLines s = s) \<and>
   trimPartialLines (trimPartialLines s) = trimPartialLines s"
proof
  show "s \<noteq> [] \<and> last s = newline \<longrightarrow> trimPartialLines s = s"
  proof
    assume "s \<noteq> [] \<and> last s = newline"
    then have "s = butlast s @ newline # []" by (metis append_butlast_last_id)
    moreover have "trimPartialLines (butlast s @ newline # []) = butlast s @ [newline]"
      by (rule trimPartialLines_last_newline) simp
    ultimately show "trimPartialLines s = s" by simp
  qed
  show "trimPartialLines (trimPartialLines s) = trimPartialLines s"
  proof (cases "newline \<in> set s")
    case False
    then show ?thesis by (simp add: trimPartialLines_no_newline)
  next
    case True
    then obtain ys zs where s: "s = ys @ newline # zs" and zs: "newline \<notin> set zs"
      by (auto dest: split_list_last)
    have t: "trimPartialLines s = ys @ newline # []"
      using zs by (simp add: s trimPartialLines_last_newline)
    have "trimPartialLines (ys @ newline # []) = ys @ [newline]"
      by (rule trimPartialLines_last_newline) simp
    then show ?thesis by (simp add: t)
  qed
qed

text \<open>
  At \<^verbatim>\<open>"a,b\n"\<close>, which ends with a newline, and at \<^verbatim>\<open>"a\nb"\<close>, which
  does not.
\<close>

theorem trimPartialLines_idempotent_witness:
  "[0x61, 0x2C, 0x62, 0x0A] \<noteq> [] \<and> last [0x61, 0x2C, 0x62, 0x0A] = newline \<and>
   trimPartialLines [0x61, 0x2C, 0x62, 0x0A] = [0x61, 0x2C, 0x62, 0x0A] \<and>
   trimPartialLines (trimPartialLines [0x61, 0x0A, 0x62]) = trimPartialLines [0x61, 0x0A, 0x62] \<and>
   trimPartialLines [0x61, 0x0A, 0x62] = [0x61, 0x0A]"
  using trimPartialLines_idempotent [of "[0x61, 0x2C, 0x62, 0x0A]"]
    trimPartialLines_idempotent [of "[0x61, 0x0A, 0x62]"]
  by (simp add: newline_def trimPartialLines_def char_at_def slice0_def)

section \<open>The claims about \<^verbatim>\<open>processResponse\<close>\<close>

text \<open>
  C2. The claim is that for every payload whose total byte size is at most
  the byte cap the Result has the truncation flag false and a text equal to
  the full decoded payload exactly, a payload of exactly the cap's size
  among them. The flag and the count are as claimed and no chunk is left
  out (\<open>processResponse_within_cap\<close>), but the text is the per-chunk text.
  The three bytes \<^verbatim>\<open>E2 82 AC\<close> of U+20AC, delivered as the chunks
  \<^verbatim>\<open>E2 82\<close> and \<^verbatim>\<open>AC\<close> under a cap of 3, their own size, come out as
  two U+FFFD, while the payload decodes to U+20AC. It is the defect of C5:
  \<^verbatim>\<open>decoder.decode(read.value)\<close> is called without \<^verbatim>\<open>{stream: true}\<close>.
\<close>

theorem within_cap_split_character:
  "total_bytes [[0xE2, 0x82], [0xAC]] = int 3 \<and>
   processResponse 3
     \<lparr>pending = deliver [[0xE2, 0x82], [0xAC]] @ [Fulfilled ReadDone], cancel_calls = 0\<rparr> =
     Some (Inr \<lparr>csv = [0xFFFD, 0xFFFD], didTruncate = False, bytesRead = 3\<rparr>,
           \<lparr>pending = [], cancel_calls = 1\<rparr>) \<and>
   decode (concat [[0xE2, 0x82], [0xAC]]) = [0x20AC]"
  by (simp add: run_eval decode_eval)




text \<open>
  C10. The claim is that when the chunk on which the byte cap is crossed
  ends with a newline nothing is discarded, and the Result has the
  truncation flag true while its text equals the full decoded payload
  received so far. The scanner does trim nothing from such a chunk
  (\<open>processResponse_newline_terminated_chunk\<close>), but the text is the
  per-chunk text. The bytes \<^verbatim>\<open>C3 A9 0A\<close>, U+00E9 and a newline, delivered
  as the chunks \<^verbatim>\<open>C3\<close> and \<^verbatim>\<open>A9 0A\<close> under a cap of 1: the second chunk
  crosses the cap and ends with a newline, and the text is two U+FFFD and
  the newline, while the bytes received decode to U+00E9 and the newline. It
  is the defect of C5.
\<close>

theorem newline_chunk_split_character:
  "total_bytes [[0xC3]] = int 1 \<and> last [0xA9, 0x0A :: byte] = 0x0A \<and>
   last (decode [0xA9, 0x0A]) = newline \<and>
   processResponse 1
     \<lparr>pending = [Fulfilled (ReadValue [0xC3]), Fulfilled (ReadValue [0xA9, 0x0A]),
                 Fulfilled ReadDone],
      cancel_calls = 0\<rparr> =
     Some (Inr \<lparr>csv = [0xFFFD, 0xFFFD, 0x0A], didTruncate = True, bytesRead = 3\<rparr>,
           \<lparr>pending = [Fulfilled ReadDone], cancel_calls = 1\<rparr>) \<and>
   decode ([0xC3] @ [0xA9, 0x0A]) = [0xE9, 0x0A]"
  by (simp add: run_eval decode_eval trim_eval)

text \<open>
  C4, as the code has it. When the payload \<^verbatim>\<open>"a,b\nc,d\ne,f\n"\<close> is delivered
  as a single chunk under a cap of 8, the counter reaches 12 on that chunk,
  which is over the cap; the scanner finds the last newline at the very end
  of the chunk and trims nothing; the Result is the whole text
  \<^verbatim>\<open>"a,b\nc,d\ne,f\n"\<close>, truncated true, 12 bytes. Nothing cuts the text down
  to the cap.
\<close>

theorem scenario_B_result:
  "processResponse 8 \<lparr>pending = Fulfilled (ReadValue scenario_payload) # rest, cancel_calls = k\<rparr> =
     Some (Inr \<lparr>csv = scenario_text, didTruncate = True, bytesRead = 12\<rparr>,
           \<lparr>pending = rest, cancel_calls = Suc k\<rparr>)"
  by (simp add: run_eval decode_eval trim_eval)

text \<open>
  C4 as the specification words it fails: the Result of scenario B is not
  the text \<^verbatim>\<open>"a,b\nc,d\n"\<close> with truncated true and 12 bytes.
\<close>

theorem scenario_B_counterexample:
  "map_option fst
     (processResponse 8
        \<lparr>pending = [Fulfilled (ReadValue scenario_payload), Fulfilled ReadDone], cancel_calls = 0\<rparr>) \<noteq>
   Some (Inr \<lparr>csv = [0x61, 0x2C, 0x62, 0x0A, 0x63, 0x2C, 0x64, 0x0A], didTruncate = True,
              bytesRead = 12\<rparr>)"
  by (simp add: run_eval decode_eval trim_eval)

text \<open>
  C8. Every Result that \<^verbatim>\<open>processResponse\<close> returns satisfies: with
  \<^verbatim>\<open>didTruncate\<close> false, \<^verbatim>\<open>bytesRead\<close> is at most the cap; with
  \<^verbatim>\<open>didTruncate\<close> true, \<^verbatim>\<open>bytesRead\<close> is over the cap; \<^verbatim>\<open>bytesRead\<close> is
  never negative, and it is the total size of all chunks the reader handed
  over, the chunk that crossed the cap counted in full, whatever part of it
  was trimmed away.
\<close>

theorem processResponse_result_invariant:
  assumes "processResponse limit r = Some (Inr res, r')"
  shows "(\<not> didTruncate res \<longrightarrow> bytesRead res \<le> int limit) \<and>
     (didTruncate res \<longrightarrow> int limit < bytesRead res) \<and>
     0 \<le> bytesRead res \<and>
     (\<exists>consumed. pending r = consumed @ pending r' \<and> bytesRead res = observed_bytes consumed)"
proof -
  from assms obtain rest where run: "read_loop limit [] 0 (pending r) = Some (Inr res, rest)"
    and r': "r' = reader_cancel (r\<lparr>pending := rest\<rparr>)"
    by (auto simp: processResponse_def split: option.splits sum.splits)
  have "pending r' = rest" by (simp add: r' reader_cancel_def)
  with read_loop_invariant [OF run] show ?thesis by simp
qed

text \<open>
  The chunks \<^verbatim>\<open>"a,b\n"\<close> and \<^verbatim>\<open>"c,d\ne,f"\<close> under a cap of 8, where the
  three bytes of \<^verbatim>\<open>"e,f"\<close> are trimmed away and still counted; and scenario
  A's payload under a cap of 12.
\<close>

theorem processResponse_result_invariant_witness:
  "processResponse 8
     \<lparr>pending = [Fulfilled (ReadValue [0x61, 0x2C, 0x62, 0x0A]),
                 Fulfilled (ReadValue [0x63, 0x2C, 0x64, 0x0A, 0x65, 0x2C, 0x66]), Fulfilled ReadDone],
      cancel_calls = 0\<rparr> =
     Some (Inr \<lparr>csv = [0x61, 0x2C, 0x62, 0x0A, 0x63, 0x2C, 0x64, 0x0A], didTruncate = True,
                bytesRead = 11\<rparr>,
           \<lparr>pending = [Fulfilled ReadDone], cancel_calls = 1\<rparr>) \<and>
   int 8 < 11 \<and>
   observed_bytes [Fulfilled (ReadValue [0x61, 0x2C, 0x62, 0x0A]),
                   Fulfilled (ReadValue [0x63, 0x2C, 0x64, 0x0A, 0x65, 0x2C, 0x66])] = 11 \<and>
   processResponse 12
     \<lparr>pending = [Fulfilled (ReadValue scenario_payload), Fulfilled ReadDone], cancel_calls = 0\<rparr> =
     Some (Inr \<lparr>csv = scenario_text, didTruncate = False, bytesRead = 12\<rparr>,
           \<lparr>pending = [], cancel_calls = 1\<rparr>) \<and>
   (12 :: int) \<le> int 12 \<and>
   observed_bytes [Fulfilled (ReadValue scenario_payload), Fulfilled ReadDone] = 12"
proof -
  have over: "processResponse 8
     \<lparr>pending = [Fulfilled (ReadValue [0x61, 0x2C, 0x62, 0x0A]),
                 Fulfilled (ReadValue [0x63, 0x2C, 0x64, 0x0A, 0x65, 0x2C, 0x66]), Fulfilled ReadDone],
      cancel_calls = 0\<rparr> =
     Some (Inr \<lparr>csv = [0x61, 0x2C, 0x62, 0x0A, 0x63, 0x2C, 0x64, 0x0A], didTruncate = True,
                bytesRead = 11\<rparr>,
           \<lparr>pending = [Fulfilled ReadDone], cancel_calls = 1\<rparr>)"
    by (simp add: run_eval decode_eval trim_eval)
  have within: "processResponse 12
     \<lparr>pending = [Fulfilled (ReadValue scenario_payload), Fulfilled ReadDone], cancel_calls = 0\<rparr> =
     Some (Inr \<lparr>csv = scenario_text, didTruncate = False, bytesRead = 12\<rparr>,
           \<lparr>pending = [], cancel_calls = 1\<rparr>)"
    by (simp add: run_eval decode_eval trim_eval)
  from processResponse_result_invariant [OF over] processResponse_result_invariant [OF within]
    over within
  show ?thesis by simp
qed

text \<open>
  C3, as the code has it. \<^verbatim>\<open>reader.cancel()\<close> stands after the loop, so the
  byte source is released exactly once on the two exits that produce a
  Result, end-of-stream and truncation at the cap, before the Result is
  returned. A rejected read, be it a transport error or an abort, leaves
  \<^verbatim>\<open>processResponse\<close> at the \<^verbatim>\<open>await\<close> and the release is never called.
  The decoder is not fatal and raises nothing.
\<close>

theorem processResponse_release:
  assumes "processResponse limit r = Some (out, r')"
  shows "cancel_calls r' = cancel_calls r + (case out of Inl e \<Rightarrow> 0 | Inr res \<Rightarrow> 1)"
  using assms
  by (auto simp: processResponse_def reader_cancel_def split: option.splits sum.splits)

text \<open>
  Scenario A's payload to its end: one release. The same payload followed by
  a read that is rejected with a \<^verbatim>\<open>TypeError\<close>: none.
\<close>

theorem processResponse_release_witness:
  "processResponse 100
     \<lparr>pending = [Fulfilled (ReadValue scenario_payload), Fulfilled ReadDone], cancel_calls = 0\<rparr> =
     Some (Inr \<lparr>csv = scenario_text, didTruncate = False, bytesRead = 12\<rparr>,
           \<lparr>pending = [], cancel_calls = 1\<rparr>) \<and>
   cancel_calls \<lparr>pending = [], cancel_calls = 1\<rparr> = 0 + 1 \<and>
   processResponse 100
     \<lparr>pending = [Fulfilled (ReadValue scenario_payload), RejectedWith (JsError ''TypeError'')],
      cancel_calls = 0\<rparr> =
     Some (Inl (JsError ''TypeError''), \<lparr>pending = [], cancel_calls = 0\<rparr>) \<and>
   cancel_calls \<lparr>pending = [], cancel_calls = 0\<rparr> = 0 + 0"
proof -
  have ok: "processResponse 100
     \<lparr>pending = [Fulfilled (ReadValue scenario_payload), Fulfilled ReadDone], cancel_calls = 0\<rparr> =
     Some (Inr \<lparr>csv = scenario_text, didTruncate = False, bytesRead = 12\<rparr>,
           \<lparr>pending = [], cancel_calls = 1\<rparr>)"
    by (simp add: run_eval decode_eval)
  have err: "processResponse 100
     \<lparr>pending = [Fulfilled (ReadValue scenario_payload), RejectedWith (JsError ''TypeError'')],
      cancel_calls = 0\<rparr> =
     Some (Inl (JsError ''TypeError''), \<lparr>pending = [], cancel_calls = 0\<rparr>)"
    by (simp add: run_eval decode_eval)
  from processResponse_release [OF ok] processResponse_release [OF err] ok err
  show ?thesis by simp
qed

text \<open>
  C3 as the specification words it fails on the error exit: after the chunk
  \<^verbatim>\<open>"a,b\n"\<close> the next read is rejected with a \<^verbatim>\<open>TypeError\<close>; the error is
  reported and the count of releases is still 0, not 1.
\<close>

theorem rejected_read_not_released:
  "processResponse 100
     \<lparr>pending = [Fulfilled (ReadValue [0x61, 0x2C, 0x62, 0x0A]), RejectedWith (JsError ''TypeError'')],
      cancel_calls = 0\<rparr> =
     Some (Inl (JsError ''TypeError''), \<lparr>pending = [], cancel_calls = 0\<rparr>) \<and>
   cancel_calls \<lparr>pending = [], cancel_calls = 0\<rparr> \<noteq> 1"
  by (simp add: run_eval decode_eval)

text \<open>
  C5. The claim is that the accumulated text, when nothing is truncated, is
  the decoding of the concatenated byte stream even when a chunk boundary
  falls inside a multi-byte character. The code calls
  \<^verbatim>\<open>decoder.decode(read.value)\<close> without \<^verbatim>\<open>{stream: true}\<close>, so no decoder
  state outlives a chunk. The two bytes \<^verbatim>\<open>C3 A9\<close> of U+00E9, delivered in
  two chunks of one byte under a cap of 100, come out as two U+FFFD, while
  the two bytes together decode to U+00E9.
\<close>

theorem decode_split_character:
  "processResponse 100
     \<lparr>pending = [Fulfilled (ReadValue [0xC3]), Fulfilled (ReadValue [0xA9]), Fulfilled ReadDone],
      cancel_calls = 0\<rparr> =
     Some (Inr \<lparr>csv = [0xFFFD, 0xFFFD], didTruncate = False, bytesRead = 2\<rparr>,
           \<lparr>pending = [], cancel_calls = 1\<rparr>) \<and>
   decode [0xC3] = [0xFFFD] \<and> decode [0xA9] = [0xFFFD] \<and>
   decode ([0xC3] @ [0xA9]) = [0xE9]"
  by (simp add: run_eval decode_eval)

section \<open>The claim about \<^verbatim>\<open>runQuery\<close>\<close>

text \<open>
  C9. If the caller invokes the handle's \<^verbatim>\<open>cancel\<close> while the handle's
  promise is still unsettled, that promise settles with a
  \<^verbatim>\<open>CancellationError\<close>: never with a Result made of the text read so far,
  and never with another error. The moment may be before the response, before
  any chunk, or after any number of chunks, and the outcome is the same
  whatever the network would have delivered at that moment or later, a
  transport error included. The cancellation reaches the transfer because
  \<^verbatim>\<open>cancel\<close> aborts the controller whose signal \<^verbatim>\<open>fetch\<close> was given; the
  awaited promise is then rejected with the abort error, which nothing in
  \<^verbatim>\<open>processResponse\<close> catches and which the \<^verbatim>\<open>catch\<close> of the chain turns
  into the \<^verbatim>\<open>CancellationError\<close>.
\<close>

theorem runQuery_cancellation:
  assumes "still_pending limit k net"
  shows "runQuery limit (Some k) net = Some (Inl CancellationError)"
proof (cases k)
  case 0
  then show ?thesis
    by (simp add: runQuery_def promise_chain_def catch_handler_def abort_error_def)
next
  case (Suc j)
  with assms obtain r where net: "net = Fulfilled r"
    and wait: "read_loop limit [] 0 (take j (pending r)) = None"
    by (cases net) (simp_all add: promise_chain_pending)
  from wait have "read_loop limit [] 0 (abort_stream j (pending r)) = Some (Inl abort_error, [])"
    by (rule read_loop_aborted)
  then show ?thesis
    by (simp add: Suc net runQuery_def promise_chain_def processResponse_def catch_handler_def
        abort_error_def)
qed

text \<open>
  Scenario D: the first chunk was \<^verbatim>\<open>"a,b\n"\<close> and the cancellation comes
  during the wait for the second, which the network would have delivered.
  The same with a network that would have failed the second read with a
  \<^verbatim>\<open>TypeError\<close>, which is what the promise settles with when nothing is
  cancelled. And a cancellation before the response.
\<close>

theorem runQuery_cancellation_witness:
  "still_pending 100 2
     (Fulfilled \<lparr>pending = [Fulfilled (ReadValue [0x61, 0x2C, 0x62, 0x0A]),
                             Fulfilled (ReadValue [0x63, 0x2C, 0x64, 0x0A]), Fulfilled ReadDone],
                 cancel_calls = 0\<rparr>) \<and>
   runQuery 100 (Some 2)
     (Fulfilled \<lparr>pending = [Fulfilled (ReadValue [0x61, 0x2C, 0x62, 0x0A]),
                             Fulfilled (ReadValue [0x63, 0x2C, 0x64, 0x0A]), Fulfilled ReadDone],
                 cancel_calls = 0\<rparr>) =
     Some (Inl CancellationError) \<and>
   runQuery 100 None
     (Fulfilled \<lparr>pending = [Fulfilled (ReadValue [0x61, 0x2C, 0x62, 0x0A]),
                             Fulfilled (ReadValue [0x63, 0x2C, 0x64, 0x0A]), Fulfilled ReadDone],
                 cancel_calls = 0\<rparr>) =
     Some (Inr \<lparr>csv = [0x61, 0x2C, 0x62, 0x0A, 0x63, 0x2C, 0x64, 0x0A], didTruncate = False,
                bytesRead = 8\<rparr>) \<and>
   still_pending 100 2
     (Fulfilled \<lparr>pending = [Fulfilled (ReadValue [0x61, 0x2C, 0x62, 0x0A]),
                             RejectedWith (JsError ''TypeError'')],
                 cancel_calls = 0\<rparr>) \<and>
   runQuery 100 (Some 2)
     (Fulfilled \<lparr>pending = [Fulfilled (ReadValue [0x61, 0x2C, 0x62, 0x0A]),
                             RejectedWith (JsError ''TypeError'')],
                 cancel_calls = 0\<rparr>) =
     Some (Inl CancellationError) \<and>
   runQuery 100 None
     (Fulfilled \<lparr>pending = [Fulfilled (ReadValue [0x61, 0x2C, 0x62, 0x0A]),
                             RejectedWith (JsError ''TypeError'')],
                 cancel_calls = 0\<rparr>) =
     Some (Inl (Rethrown (JsError ''TypeError''))) \<and>
   still_pending 100 0 (RejectedWith (JsError ''TypeError'')) \<and>
   runQuery 100 (Some 0) (RejectedWith (JsError ''TypeError'')) = Some (Inl CancellationError)"
proof -
  have p1: "still_pending 100 2
     (Fulfilled \<lparr>pending = [Fulfilled (ReadValue [0x61, 0x2C, 0x62, 0x0A]),
                             Fulfilled (ReadValue [0x63, 0x2C, 0x64, 0x0A]), Fulfilled ReadDone],
                 cancel_calls = 0\<rparr>)"
    by (simp add: numeral_2_eq_2 promise_chain_def run_eval decode_eval)
  have p2: "still_pending 100 2
     (Fulfilled \<lparr>pending = [Fulfilled (ReadValue [0x61, 0x2C, 0x62, 0x0A]),
                             RejectedWith (JsError ''TypeError'')],
                 cancel_calls = 0\<rparr>)"
    by (simp add: numeral_2_eq_2 promise_chain_def run_eval decode_eval)
  have p3: "still_pending 100 0 (RejectedWith (JsError ''TypeError''))"
    by simp
  have free: "runQuery 100 None
     (Fulfilled \<lparr>pending = [Fulfilled (ReadValue [0x61, 0x2C, 0x62, 0x0A]),
                             Fulfilled (ReadValue [0x63, 0x2C, 0x64, 0x0A]), Fulfilled ReadDone],
                 cancel_calls = 0\<rparr>) =
     Some (Inr \<lparr>csv = [0x61, 0x2C, 0x62, 0x0A, 0x63, 0x2C, 0x64, 0x0A], didTruncate = False,
                bytesRead = 8\<rparr>) \<and>
   runQuery 100 None
     (Fulfilled \<lparr>pending = [Fulfilled (ReadValue [0x61, 0x2C, 0x62, 0x0A]),
                             RejectedWith (JsError ''TypeError'')],
                 cancel_calls = 0\<rparr>) =
     Some (Inl (Rethrown (JsError ''TypeError'')))"
    by (simp add: runQuery_def promise_chain_def catch_handler_def run_eval decode_eval)
  from runQuery_cancellation [OF p1] runQuery_cancellation [OF p2] runQuery_cancellation [OF p3]
    p1 p2 p3 free
  show ?thesis by blast
qed

end
